theory Spec2Isabelle
  imports Main "HOL-Library.Char_ord" "HOL-Library.List_Lexorder" "HOL-Library.Sublist"
    "HOL-Library.Multiset"
begin

section \<open>Strings as the program sees them\<close>

text \<open>
  A Python \<open>str\<close> is modelled as a \<open>string\<close> (a list of \<open>char\<close>): each \<open>char\<close> stands for
  the code point of the same number, so the model covers the names and texts whose code
  points lie in 0..255. Within that range the decimal digits of \<open>\d\<close> are exactly
  \<open>0\<close>..\<open>9\<close>; \<open>[A-Za-z0-9]\<close> is ASCII in any case. The order on strings is the
  lexicographic order on code points, which is how Python compares \<open>str\<close> values.
\<close>

definition is_digit :: "char \<Rightarrow> bool" where
  "is_digit c \<longleftrightarrow> c \<in> set ''0123456789''"

definition is_alnum :: "char \<Rightarrow> bool" where
  "is_alnum c \<longleftrightarrow>
     c \<in> set ''ABCDEFGHIJKLMNOPQRSTUVWXYZabcdefghijklmnopqrstuvwxyz0123456789''"

text \<open>
  \<open>str.lower\<close> on the code points 0..255: the ASCII capitals and the capitals of the
  Latin-1 block (192..222 without the multiplication sign 215) move up by 32.
\<close>

definition lower_char :: "char \<Rightarrow> char" where
  "lower_char c =
     (let n = (of_char c :: nat) in
      if (65 \<le> n \<and> n \<le> 90) \<or> (192 \<le> n \<and> n \<le> 222 \<and> n \<noteq> 215)
      then char_of (n + 32) else c)"

definition py_lower :: "string \<Rightarrow> string" where
  "py_lower s = map lower_char s"



text \<open>
  \<open>int(digits)\<close> on a string of decimal digits and \<open>str(n)\<close> (the rendering inside an
  f-string) of a natural number. Python integers are unbounded, hence \<open>nat\<close>.
\<close>

definition digit_val :: "char \<Rightarrow> nat" where
  "digit_val c = of_char c - 48"

definition py_int :: "string \<Rightarrow> nat" where
  "py_int ds = foldl (\<lambda>a c. 10 * a + digit_val c) 0 ds"

fun py_str :: "nat \<Rightarrow> string" where
  "py_str n =
     (if n < 10 then [char_of (48 + n)]
      else py_str (n div 10) @ [char_of (48 + n mod 10)])"

declare py_str.simps [simp del]

text \<open>
  Python's \<open>max\<close> of a list; the code calls it only behind a guard that the list is not
  empty (\<open>max(xs) if xs else 0\<close>), so only the non-empty case has an equation.
\<close>

fun py_max :: "'a::linorder list \<Rightarrow> 'a" where
  "py_max (x # xs) = fold max xs x"

section \<open>The regular expressions of the program\<close>

text \<open>
  The two patterns of the program use anchors, literal text, \<open>\d+\<close>, \<open>[A-Za-z0-9]+\<close>
  and one capturing group. \<open>ms w r s\<close> runs pattern \<open>r\<close> on the subject \<open>w\<close> at the
  position whose remaining text is \<open>s\<close>, as the backtracking matcher of \<open>re\<close> does: it
  lists the ways \<open>r\<close> can match there, in the order in which the matcher tries them
  (a greedy \<open>+\<close> tries the longest run first), each as the text left after the match
  with the groups captured. \<open>$\<close> matches at the end of the subject and also just
  before a line feed that ends it.
\<close>

datatype cclass = Digit | Alnum

fun in_class :: "cclass \<Rightarrow> char \<Rightarrow> bool" where
  "in_class Digit c = is_digit c"
| "in_class Alnum c = is_alnum c"

datatype regex = Caret | Dollar | Lit string | Plus cclass | Group regex | Cat regex regex

primrec ms :: "string \<Rightarrow> regex \<Rightarrow> string \<Rightarrow> (string \<times> string list) list" where
  "ms w Caret s = (if length s = length w then [(s, [])] else [])"
| "ms w Dollar s = (if s = [] \<or> s = [CHR 0x0A] then [(s, [])] else [])"
| "ms w (Lit l) s = (if prefix l s then [(drop (length l) s, [])] else [])"
| "ms w (Plus c) s =
     map (\<lambda>k. (drop k s, [])) (rev [1..<Suc (length (takeWhile (in_class c) s))])"
| "ms w (Group r) s = map (\<lambda>(t, gs). (t, take (length s - length t) s # gs)) (ms w r s)"
| "ms w (Cat a b) s =
     concat (map (\<lambda>(u, g1). map (\<lambda>(t, g2). (t, g1 @ g2)) (ms w b u)) (ms w a s))"

text \<open>
  \<open>pat.match(w)\<close> tries the pattern at the start of \<open>w\<close>; \<open>re.search\<close> tries every start
  position from the left and stops at the first that matches. Both give the groups of the
  first way found, or \<open>None\<close>.
\<close>

definition re_match :: "regex \<Rightarrow> string \<Rightarrow> string list option" where
  "re_match pat w = (case ms w pat w of [] \<Rightarrow> None | (t, gs) # _ \<Rightarrow> Some gs)"

fun search_from :: "string \<Rightarrow> regex \<Rightarrow> string \<Rightarrow> string list option" where
  "search_from w pat [] = (case ms w pat [] of [] \<Rightarrow> None | (t, gs) # _ \<Rightarrow> Some gs)"
| "search_from w pat (c # s) =
     (case ms w pat (c # s) of [] \<Rightarrow> search_from w pat s | (t, gs) # _ \<Rightarrow> Some gs)"

definition re_search :: "regex \<Rightarrow> string \<Rightarrow> string list option" where
  "re_search pat w = search_from w pat w"

section \<open>Filename classifier\<close>

definition IMG_EXTS :: "string list" where
  "IMG_EXTS = [''.png'', ''.jpg'', ''.jpeg'', ''.bmp'', ''.gif'', ''.tiff'']"

text \<open>\<open>f.lower().endswith(IMG_EXTS)\<close>: some extension of the tuple ends the lowered name.\<close>

definition has_img_ext :: "string \<Rightarrow> bool" where
  "has_img_ext f \<longleftrightarrow> list_ex (\<lambda>e. suffix e (py_lower f)) IMG_EXTS"

text \<open>
  \<open>list_images\<close> takes the entries that \<open>os.listdir(folder)\<close> returned, in whatever order
  the system gave them.
\<close>

definition list_images :: "string list \<Rightarrow> string list" where
  "list_images entries = sort (filter has_img_ext entries)"

text \<open>
  \<open>re.escape(shortname)\<close> makes the pattern match the short name as literal text, so it
  enters the pattern as a literal.
\<close>

definition pattern_for :: "string \<Rightarrow> regex" where
  "pattern_for shortname =
     Cat Caret (Cat (Lit ''image_'') (Cat (Lit shortname) (Cat (Lit ''_'')
       (Cat (Group (Plus Digit)) (Cat (Lit ''.'') (Cat (Plus Alnum) Dollar))))))"

fun validate_loop ::
  "regex \<Rightarrow> string list \<Rightarrow> string list \<Rightarrow> string list \<Rightarrow> string list \<times> string list"
where
  "validate_loop pat [] valids invalids = (valids, invalids)"
| "validate_loop pat (f # imgs) valids invalids =
     (if re_match pat f \<noteq> None then validate_loop pat imgs (valids @ [f]) invalids
      else validate_loop pat imgs valids (invalids @ [f]))"

definition validate_images ::
  "string list \<Rightarrow> string \<Rightarrow> string list \<times> string list \<times> string list"
where
  "validate_images entries shortname =
     (let pat = pattern_for shortname;
          imgs = list_images entries;
          (valids, invalids) = validate_loop pat imgs [] []
      in (valids, invalids, imgs))"

section \<open>Serial allocator and renamer\<close>

definition serial_pattern :: regex where
  "serial_pattern = Cat (Lit ''_'') (Cat (Group (Plus Digit)) (Lit ''.''))"

text \<open>\<open>m.group(1)\<close> of \<open>re.search(r"_(\d+)\.", name)\<close>; the pattern has exactly one group.\<close>

definition search_serial :: "string \<Rightarrow> string option" where
  "search_serial name =
     (case re_search serial_pattern name of
        Some (g # _) \<Rightarrow> Some g
      | _ \<Rightarrow> None)"

fun highest_serial_loop :: "string list \<Rightarrow> nat list \<Rightarrow> nat list" where
  "highest_serial_loop [] nums = nums"
| "highest_serial_loop (name # rest) nums =
     (case search_serial name of
        Some g \<Rightarrow> highest_serial_loop rest (nums @ [py_int g])
      | None \<Rightarrow> highest_serial_loop rest nums)"

definition highest_serial :: "string list \<Rightarrow> nat" where
  "highest_serial valid_images =
     (let nums = highest_serial_loop valid_images [] in
      if nums \<noteq> [] then py_max nums else 0)"

text \<open>
  \<open>os.path.splitext\<close> (the POSIX version): the extension starts at the last dot, provided
  that dot comes after the last \<open>/\<close> and some character between the two is not a dot;
  otherwise the extension is empty. \<open>rfind\<close> is \<open>str.rfind\<close> for one character.
\<close>

definition rfind :: "char \<Rightarrow> string \<Rightarrow> int" where
  "rfind c s =
     (if c \<in> set s then int (length s) - 1 - int (length (takeWhile (\<lambda>x. x \<noteq> c) (rev s)))
      else - 1)"

definition splitext :: "string \<Rightarrow> string \<times> string" where
  "splitext p =
     (let sepIndex = rfind CHR ''/'' p;
          dotIndex = rfind CHR ''.'' p;
          filenameIndex = sepIndex + 1
      in if dotIndex > sepIndex \<and>
            list_ex (\<lambda>x. x \<noteq> CHR ''.'')
              (take (nat (dotIndex - filenameIndex)) (drop (nat filenameIndex) p))
         then (take (nat dotIndex) p, drop (nat dotIndex) p)
         else (p, []))"

text \<open>
  \<open>os.rename\<close> belongs to the system. It enters the renamer as the parameter \<open>os_rename\<close>:
  from the state of the file system, the old and the new name (each joined to the folder)
  it gives the new state or the exception it raises. Nothing is assumed about when it
  fails. An exception leaves the loop of \<open>rename_invalids_to_valid\<close>: the renames
  already applied stay in effect and no mapping is returned.
\<close>

fun rename_loop ::
  "('fs \<Rightarrow> string \<Rightarrow> string \<Rightarrow> 'e + 'fs) \<Rightarrow> 'fs \<Rightarrow> string \<Rightarrow> string list \<Rightarrow> nat \<Rightarrow>
   (string \<times> string) list \<Rightarrow> 'fs \<times> ('e + (string \<times> string) list)"
where
  "rename_loop os_rename fs shortname [] next_id renamed = (fs, Inr renamed)"
| "rename_loop os_rename fs shortname (fname # rest) next_id renamed =
     (let ext = snd (splitext fname);
          new_name = ''image_'' @ shortname @ ''_'' @ py_str next_id @ ext
      in case os_rename fs fname new_name of
           Inl e \<Rightarrow> (fs, Inl e)
         | Inr fs' \<Rightarrow>
             rename_loop os_rename fs' shortname rest (next_id + 1)
               (renamed @ [(fname, new_name)]))"

definition rename_invalids_to_valid ::
  "('fs \<Rightarrow> string \<Rightarrow> string \<Rightarrow> 'e + 'fs) \<Rightarrow> 'fs \<Rightarrow> string \<Rightarrow> string list \<Rightarrow> string list \<Rightarrow>
   'fs \<times> ('e + (string \<times> string) list)"
where
  "rename_invalids_to_valid os_rename fs shortname valid_images invalid_images =
     (let next_id = highest_serial valid_images + 1
      in rename_loop os_rename fs shortname invalid_images next_id [])"

section \<open>Annotation store\<close>

text \<open>
  A data frame of the program has two columns; a cell holds text or is missing (\<open>NaN\<close>,
  what \<open>pd.isna\<close> tests). Writing a frame with \<open>to_csv\<close> and reading the file with
  \<open>read_csv\<close> are the persistence primitive: the store maps a path to the frame the file
  holds, which for a file just written is the frame that was given to \<open>to_csv\<close>, and
  \<open>read_csv\<close> returns the frame of the store. What pandas makes of a frame on its way
  through the file is not part of the program and not part of \<open>read_csv\<close> here:
  \<open>pd.read_csv\<close> types every column anew, so that a column of numerals comes back as
  numbers and a text it takes for a missing value (the empty text, \<open>NA\<close>) as a missing
  cell. Where a result depends on a frame written by one handler and read by the next,
  this passage is the parameter \<open>reread\<close> of \<open>next_run\<close> below.
\<close>

datatype cell = NaN | Str string

type_synonym row = "cell \<times> cell"

record dataframe =
  columns :: "string list"
  rows :: "row list"

type_synonym csv_store = "string \<rightharpoonup> dataframe"

text \<open>
  \<open>os.replace\<close> on the files of the store, which the program alone writes: the source
  takes the place of the destination; a missing source raises \<open>FileNotFoundError\<close>, as
  does \<open>read_csv\<close> on a missing file.
\<close>

datatype os_error = FileNotFoundError


definition CAPTIONS_FILE :: string where
  "CAPTIONS_FILE = ''captions.csv''"


definition read_csv :: "csv_store \<Rightarrow> string \<Rightarrow> os_error + dataframe" where
  "read_csv store path =
     (case store path of None \<Rightarrow> Inl FileNotFoundError | Some df \<Rightarrow> Inr df)"

definition ensure_csv ::
  "csv_store \<Rightarrow> string \<Rightarrow> string list \<Rightarrow> csv_store \<times> (os_error + dataframe)"
where
  "ensure_csv store path cols =
     (let store' =
        (if store path = None then store(path \<mapsto> \<lparr>columns = cols, rows = []\<rparr>) else store)
      in (store', read_csv store' path))"


text \<open>
  \<open>str(cell)\<close>, and the elementwise comparison \<open>column == text\<close> of a cell with a Python
  string: a missing cell prints as \<open>nan\<close> and equals no string.
\<close>

fun cell_str :: "cell \<Rightarrow> string" where
  "cell_str NaN = ''nan''"
| "cell_str (Str s) = s"

fun isna :: "cell \<Rightarrow> bool" where
  "isna NaN = True"
| "isna (Str s) = False"


type_synonym caps_map = "string \<rightharpoonup> string list"
type_synonym lm_map = "string \<rightharpoonup> string"

fun captions_map_loop :: "row list \<Rightarrow> caps_map \<Rightarrow> caps_map" where
  "captions_map_loop [] m = m"
| "captions_map_loop ((image_name, caption) # rest) m =
     (let img = cell_str image_name;
          cap = (if isna caption then [] else cell_str caption)
      in captions_map_loop rest
           (m(img \<mapsto> (case m img of None \<Rightarrow> [] | Some caps \<Rightarrow> caps) @ [cap])))"

definition captions_map :: "dataframe \<Rightarrow> caps_map" where
  "captions_map df = captions_map_loop (rows df) Map.empty"

fun landmarks_map_loop :: "row list \<Rightarrow> lm_map \<Rightarrow> lm_map" where
  "landmarks_map_loop [] m = m"
| "landmarks_map_loop ((image_name, landmark) # rest) m =
     (let img = cell_str image_name;
          lm = (if isna landmark then [] else cell_str landmark)
      in landmarks_map_loop rest (m(img \<mapsto> lm)))"

definition landmarks_map :: "dataframe \<Rightarrow> lm_map" where
  "landmarks_map df = landmarks_map_loop (rows df) Map.empty"












section \<open>Filter engine\<close>

text \<open>
  \<open>caps_map_full\<close> and \<open>landmarks_full\<close> are read only through \<open>.get(img, [])\<close> and
  \<open>.get(img, "")\<close>.
\<close>

definition caps_get :: "caps_map \<Rightarrow> string \<Rightarrow> string list" where
  "caps_get m img = (case m img of None \<Rightarrow> [] | Some cs \<Rightarrow> cs)"

definition lm_get :: "lm_map \<Rightarrow> string \<Rightarrow> string" where
  "lm_get m img = (case m img of None \<Rightarrow> [] | Some lm \<Rightarrow> lm)"

fun landmark_set_loop :: "string list \<Rightarrow> lm_map \<Rightarrow> string set \<Rightarrow> string set" where
  "landmark_set_loop [] lms landmark_set = landmark_set"
| "landmark_set_loop (img # rest) lms landmark_set =
     (let lm = lm_get lms img in
      if lm \<noteq> [] then landmark_set_loop rest lms (insert lm landmark_set)
      else landmark_set_loop rest lms landmark_set)"

definition build_filters :: "string list \<Rightarrow> caps_map \<Rightarrow> lm_map \<Rightarrow> int list \<times> string list" where
  "build_filters valid_images caps_map_full landmarks_full =
     (let counts = map (\<lambda>img. int (length (caps_get caps_map_full img))) valid_images;
          max_count = (if counts \<noteq> [] then py_max counts else 0);
          count_options = [0..max_count];
          landmark_set = landmark_set_loop valid_images landmarks_full {};
          landmark_options = ''Any'' # sorted_list_of_set landmark_set
      in (count_options, landmark_options))"

fun apply_filters_loop ::
  "string list \<Rightarrow> caps_map \<Rightarrow> lm_map \<Rightarrow> int \<Rightarrow> int \<Rightarrow> string \<Rightarrow> string list \<Rightarrow> string list"
where
  "apply_filters_loop [] caps lms cap_min cap_max landmark_filter filtered = filtered"
| "apply_filters_loop (img # rest) caps lms cap_min cap_max landmark_filter filtered =
     (let cnt = int (length (caps_get caps img)) in
      if cnt < cap_min \<or> cnt > cap_max
      then apply_filters_loop rest caps lms cap_min cap_max landmark_filter filtered
      else
        (let lm = lm_get lms img in
         if landmark_filter \<noteq> ''Any'' \<and> lm \<noteq> landmark_filter
         then apply_filters_loop rest caps lms cap_min cap_max landmark_filter filtered
         else apply_filters_loop rest caps lms cap_min cap_max landmark_filter
                (filtered @ [img])))"

definition apply_filters ::
  "string list \<Rightarrow> caps_map \<Rightarrow> lm_map \<Rightarrow> int \<Rightarrow> int \<Rightarrow> string \<Rightarrow> string list"
where
  "apply_filters valid_images caps_map_full landmarks_full cap_min cap_max landmark_filter =
     apply_filters_loop valid_images caps_map_full landmarks_full cap_min cap_max
       landmark_filter []"

section \<open>The notions of the specification\<close>

text \<open>The filter criterion, in the words of the specification.\<close>

definition keeps :: "caps_map \<Rightarrow> lm_map \<Rightarrow> int \<Rightarrow> int \<Rightarrow> string \<Rightarrow> string \<Rightarrow> bool" where
  "keeps caps lms cap_min cap_max landmark_filter img \<longleftrightarrow>
     cap_min \<le> int (length (caps_get caps img)) \<and>
     int (length (caps_get caps img)) \<le> cap_max \<and>
     (landmark_filter = ''Any'' \<or> lm_get lms img = landmark_filter)"

text \<open>
  The largest caption count among the valid images (0 when there is none), and the
  non-empty landmark values found on them.
\<close>

definition max_caption_count :: "string list \<Rightarrow> caps_map \<Rightarrow> int" where
  "max_caption_count valid_images caps =
     (if valid_images = [] then 0
      else Max ((\<lambda>img. int (length (caps_get caps img))) ` set valid_images))"

definition landmark_values :: "string list \<Rightarrow> lm_map \<Rightarrow> string set" where
  "landmark_values valid_images lms = lm_get lms ` set valid_images - {[]}"

text \<open>
  The relation that a load of \<open>path\<close> returns: the frame the file holds, or the empty frame
  with the given header when the file is missing.
\<close>

definition stored :: "csv_store \<Rightarrow> string \<Rightarrow> string list \<Rightarrow> dataframe" where
  "stored store path cols =
     (case store path of None \<Rightarrow> \<lparr>columns = cols, rows = []\<rparr> | Some df \<Rightarrow> df)"


text \<open>
  The canonical name of the specification: \<open>image_<shortname>_<digits>.<ext>\<close> with one or
  more decimal digits and a non-empty alphanumeric extension, the short name taken
  literally.
\<close>

definition canonical :: "string \<Rightarrow> string \<Rightarrow> bool" where
  "canonical shortname f \<longleftrightarrow>
     (\<exists>ds ext. f = ''image_'' @ shortname @ ''_'' @ ds @ ''.'' @ ext \<and>
        ds \<noteq> [] \<and> (\<forall>c\<in>set ds. is_digit c) \<and> ext \<noteq> [] \<and> (\<forall>c\<in>set ext. is_alnum c))"

text \<open>
  The digit group of the first occurrence of \<open>_<digits>.\<close> in a name: \<open>digit_group_at s ds\<close>
  says that the text \<open>s\<close> starts with such an occurrence whose digits are \<open>ds\<close>, and
  \<open>first_digit_group name ds\<close> that the leftmost position of \<open>name\<close> where an occurrence
  starts carries the digits \<open>ds\<close>. The serials of the valid images are the numbers these
  groups denote, and the first serial to assign is one more than their maximum, or 1.
\<close>

definition digit_group_at :: "string \<Rightarrow> string \<Rightarrow> bool" where
  "digit_group_at s ds \<longleftrightarrow>
     ds \<noteq> [] \<and> (\<forall>c\<in>set ds. is_digit c) \<and> (\<exists>post. s = ''_'' @ ds @ ''.'' @ post)"

definition first_digit_group :: "string \<Rightarrow> string \<Rightarrow> bool" where
  "first_digit_group name ds \<longleftrightarrow>
     (\<exists>i\<le>length name. digit_group_at (drop i name) ds \<and>
        (\<forall>j<i. \<forall>ds'. \<not> digit_group_at (drop j name) ds'))"

definition serials :: "string list \<Rightarrow> nat set" where
  "serials valid = {py_int ds | f ds. f \<in> set valid \<and> first_digit_group f ds}"

definition first_serial :: "string list \<Rightarrow> nat" where
  "first_serial valid = (if serials valid = {} then 1 else 1 + Max (serials valid))"

text \<open>
  The name line 127 builds for a file and a serial: the extension is the one that
  \<open>os.path.splitext\<close> finds in the old name.
\<close>

definition new_name_for :: "string \<Rightarrow> nat \<Rightarrow> string \<Rightarrow> string" where
  "new_name_for shortname serial fname =
     ''image_'' @ shortname @ ''_'' @ py_str serial @ snd (splitext fname)"

text \<open>
  The renames of a mapping applied in order by the system's \<open>os.rename\<close>, up to the first
  that raises.
\<close>

fun run_renames ::
  "('fs \<Rightarrow> string \<Rightarrow> string \<Rightarrow> 'e + 'fs) \<Rightarrow> 'fs \<Rightarrow> (string \<times> string) list \<Rightarrow> 'fs \<times> ('e + unit)"
where
  "run_renames os_rename fs [] = (fs, Inr ())"
| "run_renames os_rename fs ((old, new) # pairs) =
     (case os_rename fs old new of
        Inl e \<Rightarrow> (fs, Inl e)
      | Inr fs' \<Rightarrow> run_renames os_rename fs' pairs)"

text \<open>
  The mapping of a call: the invalid files in their order, each with the name built for
  the next serial.
\<close>

definition rename_plan :: "string \<Rightarrow> nat \<Rightarrow> string list \<Rightarrow> (string \<times> string) list" where
  "rename_plan shortname first invalid =
     map (\<lambda>(serial, fname). (fname, new_name_for shortname serial fname))
       (enumerate first invalid)"


section \<open>Properties of the string and number primitives\<close>

lemma py_max_Max:
  assumes "xs \<noteq> []"
  shows "py_max xs = Max (set xs)"
proof (cases xs)
  case Nil
  with assms show ?thesis by simp
next
  case (Cons a as)
  show ?thesis
    unfolding Cons py_max.simps by (rule Max.set_eq_fold [symmetric])
qed

lemma digit_val_char_of: "d < 10 \<Longrightarrow> digit_val (char_of (48 + d)) = d"
  by (simp add: digit_val_def)

lemma py_int_snoc: "py_int (ds @ [c]) = 10 * py_int ds + digit_val c"
  by (simp add: py_int_def)

lemma py_int_py_str: "py_int (py_str n) = n"
proof (induction n rule: py_str.induct)
  case (1 n)
  show ?case
  proof (cases "n < 10")
    case True
    then show ?thesis
      by (subst py_str.simps) (simp add: py_int_def digit_val_char_of)
  next
    case False
    with 1 have "py_int (py_str (n div 10)) = n div 10" by simp
    moreover have "digit_val (char_of (48 + n mod 10)) = n mod 10"
      by (rule digit_val_char_of) simp
    ultimately show ?thesis
      using False by (subst py_str.simps) (simp add: py_int_snoc)
  qed
qed

lemma is_digit_char_of:
  assumes "(d::nat) < 10"
  shows "is_digit (char_of (48 + d))"
proof -
  have m: "map (\<lambda>d::nat. char_of (48 + d)) [0..<10] = ''0123456789''"
    by code_simp
  from assms have "d \<in> set [0..<10]" by simp
  then have "char_of (48 + d) \<in> set (map (\<lambda>d::nat. char_of (48 + d)) [0..<10])"
    by (simp only: set_map) (rule imageI)
  then show ?thesis
    by (simp only: m is_digit_def)
qed

lemma py_str_digits: "py_str n \<noteq> [] \<and> (\<forall>c\<in>set (py_str n). is_digit c)"
proof (induction n rule: py_str.induct)
  case (1 n)
  show ?case
  proof (cases "n < 10")
    case True
    then show ?thesis
      by (subst (1 2) py_str.simps) (simp add: is_digit_char_of)
  next
    case False
    with 1 have "\<forall>c\<in>set (py_str (n div 10)). is_digit c" by simp
    moreover have "is_digit (char_of (48 + n mod 10))"
      by (rule is_digit_char_of) simp
    ultimately show ?thesis
      using False by (subst (1 2) py_str.simps) simp
  qed
qed

section \<open>Properties of the matcher\<close>

text \<open>What each construct matches: the text consumed and the groups captured.\<close>

lemma ms_Caret: "(t, g) \<in> set (ms w Caret s) \<longleftrightarrow> t = s \<and> g = [] \<and> length s = length w"
  by auto

lemma ms_Dollar:
  "(t, g) \<in> set (ms w Dollar s) \<longleftrightarrow> t = s \<and> g = [] \<and> (s = [] \<or> s = [CHR 0x0A])"
  by auto

lemma ms_Lit: "(t, g) \<in> set (ms w (Lit l) s) \<longleftrightarrow> s = l @ t \<and> g = []"
  by (auto simp: prefix_def)

lemma take_class_run:
  assumes "k \<le> length (takeWhile P s)"
  shows "\<forall>x\<in>set (take k s). P x"
proof -
  have "take k s = take k (takeWhile P s @ dropWhile P s)" by simp
  also have "\<dots> = take k (takeWhile P s)" using assms by (simp only: take_append) simp
  finally have "set (take k s) \<subseteq> set (takeWhile P s)" by (simp add: set_take_subset)
  then show ?thesis by (auto dest: set_takeWhileD)
qed

lemma set_ms_Plus:
  "set (ms w (Plus c) s) =
     (\<lambda>k. (drop k s, [])) ` {k. 1 \<le> k \<and> k \<le> length (takeWhile (in_class c) s)}"
  by auto

lemma ms_Plus:
  "(t, g) \<in> set (ms w (Plus c) s) \<longleftrightarrow>
     g = [] \<and> (\<exists>ds. ds \<noteq> [] \<and> (\<forall>x\<in>set ds. in_class c x) \<and> s = ds @ t)"
proof
  assume "(t, g) \<in> set (ms w (Plus c) s)"
  then obtain k where k: "1 \<le> k" "k \<le> length (takeWhile (in_class c) s)"
    and t: "t = drop k s" and g: "g = []"
    unfolding set_ms_Plus by auto
  have "length (takeWhile (in_class c) s) \<le> length s" by (rule length_takeWhile_le)
  with k have "take k s \<noteq> []" by auto
  moreover have "\<forall>x\<in>set (take k s). in_class c x" using k(2) by (rule take_class_run)
  moreover have "s = take k s @ t" by (simp add: t)
  ultimately show "g = [] \<and> (\<exists>ds. ds \<noteq> [] \<and> (\<forall>x\<in>set ds. in_class c x) \<and> s = ds @ t)"
    using g by blast
next
  assume "g = [] \<and> (\<exists>ds. ds \<noteq> [] \<and> (\<forall>x\<in>set ds. in_class c x) \<and> s = ds @ t)"
  then obtain ds where g: "g = []" and ds: "ds \<noteq> []" "\<forall>x\<in>set ds. in_class c x" and s: "s = ds @ t"
    by blast
  have "takeWhile (in_class c) s = ds @ takeWhile (in_class c) t"
    unfolding s using ds(2) by (simp add: takeWhile_append2)
  then have "length ds \<le> length (takeWhile (in_class c) s)" by simp
  moreover have "1 \<le> length ds" using ds(1) by (cases ds) auto
  moreover have "drop (length ds) s = t" by (simp add: s)
  ultimately have "(t, []) \<in>
      (\<lambda>k. (drop k s, [])) ` {k. 1 \<le> k \<and> k \<le> length (takeWhile (in_class c) s)}"
    by (intro image_eqI [where x = "length ds"]) auto
  then show "(t, g) \<in> set (ms w (Plus c) s)"
    using g by (simp only: set_ms_Plus)
qed

lemma ms_Group:
  "(t, g) \<in> set (ms w (Group r) s) \<longleftrightarrow>
     (\<exists>g'. (t, g') \<in> set (ms w r s) \<and> g = take (length s - length t) s # g')"
  by auto

lemma ms_Cat:
  "(t, g) \<in> set (ms w (Cat a b) s) \<longleftrightarrow>
     (\<exists>u g1 g2. (u, g1) \<in> set (ms w a s) \<and> (t, g2) \<in> set (ms w b u) \<and> g = g1 @ g2)"
  by force

lemmas ms_sem = ms_Caret ms_Dollar ms_Lit ms_Plus ms_Group ms_Cat

lemma ms_CatI:
  assumes "(u, g1) \<in> set (ms w a s)" and "(t, g2) \<in> set (ms w b u)"
  shows "(t, g1 @ g2) \<in> set (ms w (Cat a b) s)"
  using assms unfolding ms_Cat by blast

lemma ms_LitI: "(t, []) \<in> set (ms w (Lit l) (l @ t))"
  unfolding ms_Lit by simp

lemma ms_PlusI:
  assumes "ds \<noteq> []" and "\<forall>x\<in>set ds. in_class c x"
  shows "(t, []) \<in> set (ms w (Plus c) (ds @ t))"
  using assms unfolding ms_Plus by blast

lemma ms_GroupI:
  assumes "(t, g) \<in> set (ms w r (ds @ t))"
  shows "(t, ds # g) \<in> set (ms w (Group r) (ds @ t))"
  using assms unfolding ms_Group by simp

lemma ms_pattern_for:
  "(t, g) \<in> set (ms w (pattern_for sn) w) \<longleftrightarrow>
     (\<exists>ds ext. w = ''image_'' @ sn @ ''_'' @ ds @ ''.'' @ ext @ t \<and>
        ds \<noteq> [] \<and> (\<forall>c\<in>set ds. is_digit c) \<and> ext \<noteq> [] \<and> (\<forall>c\<in>set ext. is_alnum c) \<and>
        (t = [] \<or> t = [CHR 0x0A]) \<and> g = [ds])"
proof
  assume "(t, g) \<in> set (ms w (pattern_for sn) w)"
  then show "\<exists>ds ext. w = ''image_'' @ sn @ ''_'' @ ds @ ''.'' @ ext @ t \<and>
        ds \<noteq> [] \<and> (\<forall>c\<in>set ds. is_digit c) \<and> ext \<noteq> [] \<and> (\<forall>c\<in>set ext. is_alnum c) \<and>
        (t = [] \<or> t = [CHR 0x0A]) \<and> g = [ds]"
    unfolding pattern_for_def ms_sem by clarsimp
next
  assume "\<exists>ds ext. w = ''image_'' @ sn @ ''_'' @ ds @ ''.'' @ ext @ t \<and>
        ds \<noteq> [] \<and> (\<forall>c\<in>set ds. is_digit c) \<and> ext \<noteq> [] \<and> (\<forall>c\<in>set ext. is_alnum c) \<and>
        (t = [] \<or> t = [CHR 0x0A]) \<and> g = [ds]"
  then obtain ds ext where w: "w = ''image_'' @ sn @ ''_'' @ ds @ ''.'' @ ext @ t"
    and ds: "ds \<noteq> []" "\<forall>c\<in>set ds. in_class Digit c"
    and ext: "ext \<noteq> []" "\<forall>c\<in>set ext. in_class Alnum c"
    and t: "t = [] \<or> t = [CHR 0x0A]" and g: "g = [ds]"
    by auto
  have "(t, []) \<in> set (ms w Dollar t)"
    using t unfolding ms_Dollar by simp
  with ms_PlusI [OF ext] have "(t, [] @ []) \<in> set (ms w (Cat (Plus Alnum) Dollar) (ext @ t))"
    by (rule ms_CatI)
  with ms_LitI have
    "(t, [] @ [] @ []) \<in> set (ms w (Cat (Lit ''.'') (Cat (Plus Alnum) Dollar)) (''.'' @ ext @ t))"
    by (rule ms_CatI)
  with ms_GroupI [OF ms_PlusI [OF ds]] have
    "(t, [ds] @ [] @ [] @ []) \<in>
       set (ms w (Cat (Group (Plus Digit)) (Cat (Lit ''.'') (Cat (Plus Alnum) Dollar)))
              (ds @ ''.'' @ ext @ t))"
    by (rule ms_CatI)
  with ms_LitI have
    "(t, [] @ [ds] @ [] @ [] @ []) \<in>
       set (ms w (Cat (Lit ''_'') (Cat (Group (Plus Digit)) (Cat (Lit ''.'')
              (Cat (Plus Alnum) Dollar))))
              (''_'' @ ds @ ''.'' @ ext @ t))"
    by (rule ms_CatI)
  with ms_LitI have
    "(t, [] @ [] @ [ds] @ [] @ [] @ []) \<in>
       set (ms w (Cat (Lit sn) (Cat (Lit ''_'') (Cat (Group (Plus Digit)) (Cat (Lit ''.'')
              (Cat (Plus Alnum) Dollar)))))
              (sn @ ''_'' @ ds @ ''.'' @ ext @ t))"
    by (rule ms_CatI)
  with ms_LitI have
    "(t, [] @ [] @ [] @ [ds] @ [] @ [] @ []) \<in>
       set (ms w (Cat (Lit ''image_'') (Cat (Lit sn) (Cat (Lit ''_'') (Cat (Group (Plus Digit))
              (Cat (Lit ''.'') (Cat (Plus Alnum) Dollar))))))
              (''image_'' @ sn @ ''_'' @ ds @ ''.'' @ ext @ t))"
    by (rule ms_CatI)
  moreover have "(w, []) \<in> set (ms w Caret w)"
    unfolding ms_Caret by simp
  ultimately have "(t, [] @ [] @ [] @ [] @ [ds] @ [] @ [] @ []) \<in> set (ms w (pattern_for sn) w)"
    unfolding pattern_for_def w [symmetric] by (rule ms_CatI [rotated])
  then show "(t, g) \<in> set (ms w (pattern_for sn) w)"
    using g by simp
qed

lemma re_match_iff: "re_match pat w \<noteq> None \<longleftrightarrow> (\<exists>t g. (t, g) \<in> set (ms w pat w))"
  by (cases "ms w pat w") (auto simp: re_match_def)

lemma re_match_pattern_for:
  "re_match (pattern_for sn) w \<noteq> None \<longleftrightarrow>
     canonical sn w \<or> (\<exists>v. w = v @ [CHR 0x0A] \<and> canonical sn v)"
proof
  assume "re_match (pattern_for sn) w \<noteq> None"
  then obtain t g where "(t, g) \<in> set (ms w (pattern_for sn) w)"
    unfolding re_match_iff by blast
  then obtain ds ext where w: "w = (''image_'' @ sn @ ''_'' @ ds @ ''.'' @ ext) @ t"
    and c: "ds \<noteq> []" "\<forall>c\<in>set ds. is_digit c" "ext \<noteq> []" "\<forall>c\<in>set ext. is_alnum c"
    and t: "t = [] \<or> t = [CHR 0x0A]"
    unfolding ms_pattern_for by auto
  from c have "canonical sn (''image_'' @ sn @ ''_'' @ ds @ ''.'' @ ext)"
    unfolding canonical_def by blast
  with w t show "canonical sn w \<or> (\<exists>v. w = v @ [CHR 0x0A] \<and> canonical sn v)"
    by auto
next
  assume "canonical sn w \<or> (\<exists>v. w = v @ [CHR 0x0A] \<and> canonical sn v)"
  then obtain v t where w: "w = v @ t" and t: "t = [] \<or> t = [CHR 0x0A]" and v: "canonical sn v"
    by auto
  from v obtain ds ext where "v = ''image_'' @ sn @ ''_'' @ ds @ ''.'' @ ext"
    and c: "ds \<noteq> []" "\<forall>c\<in>set ds. is_digit c" "ext \<noteq> []" "\<forall>c\<in>set ext. is_alnum c"
    unfolding canonical_def by blast
  with w have "w = ''image_'' @ sn @ ''_'' @ ds @ ''.'' @ ext @ t"
    by simp
  with c t have "(t, [ds]) \<in> set (ms w (pattern_for sn) w)"
    unfolding ms_pattern_for by blast
  then show "re_match (pattern_for sn) w \<noteq> None"
    unfolding re_match_iff by blast
qed

section \<open>Properties of the filename classifier\<close>

lemma validate_loop_filter:
  "validate_loop pat imgs valids invalids =
     (valids @ filter (\<lambda>f. re_match pat f \<noteq> None) imgs,
      invalids @ filter (\<lambda>f. re_match pat f = None) imgs)"
  by (induction imgs arbitrary: valids invalids) simp_all

lemma validate_images_eq:
  "validate_images entries sn =
     (filter (\<lambda>f. re_match (pattern_for sn) f \<noteq> None) (list_images entries),
      filter (\<lambda>f. re_match (pattern_for sn) f = None) (list_images entries),
      list_images entries)"
  by (simp add: validate_images_def validate_loop_filter Let_def)

lemma has_img_ext_iff:
  "has_img_ext f \<longleftrightarrow> (\<exists>stem e. f = stem @ e \<and> py_lower e \<in> set IMG_EXTS)"
proof
  assume "has_img_ext f"
  then obtain e zs where e: "e \<in> set IMG_EXTS" and z: "py_lower f = zs @ e"
    by (auto simp: has_img_ext_def list_ex_iff suffix_def)
  let ?n = "length zs"
  have "py_lower (drop ?n f) = drop ?n (py_lower f)"
    by (simp add: py_lower_def drop_map)
  with z have "py_lower (drop ?n f) = e" by simp
  moreover have "f = take ?n f @ drop ?n f" by simp
  ultimately show "\<exists>stem e. f = stem @ e \<and> py_lower e \<in> set IMG_EXTS"
    using e by blast
next
  assume "\<exists>stem e. f = stem @ e \<and> py_lower e \<in> set IMG_EXTS"
  then obtain stem e where "f = stem @ e" and e: "py_lower e \<in> set IMG_EXTS" by blast
  then have "py_lower f = py_lower stem @ py_lower e" by (simp add: py_lower_def)
  then have "suffix (py_lower e) (py_lower f)" by (simp add: suffix_def)
  with e show "has_img_ext f"
    by (auto simp: has_img_ext_def list_ex_iff)
qed

lemma has_img_ext_no_newline: "\<not> has_img_ext (v @ [CHR 0x0A])"
proof
  assume "has_img_ext (v @ [CHR 0x0A])"
  then obtain e zs where e: "e \<in> set IMG_EXTS" and z: "py_lower (v @ [CHR 0x0A]) = zs @ e"
    by (auto simp: has_img_ext_def list_ex_iff suffix_def)
  have "lower_char (CHR 0x0A) = CHR 0x0A" by (simp add: lower_char_def)
  then have "last (py_lower (v @ [CHR 0x0A])) = CHR 0x0A" by (simp add: py_lower_def)
  moreover from e have "e \<noteq> [] \<and> last e \<noteq> CHR 0x0A" by (auto simp: IMG_EXTS_def)
  ultimately show False using z by simp
qed

lemma set_list_images: "set (list_images entries) = {f \<in> set entries. has_img_ext f}"
  by (auto simp: list_images_def)

lemma valid_iff_canonical:
  assumes "f \<in> set (list_images entries)"
  shows "re_match (pattern_for sn) f \<noteq> None \<longleftrightarrow> canonical sn f"
proof -
  from assms have "has_img_ext f" by (simp add: set_list_images)
  then have "\<not> (\<exists>v. f = v @ [CHR 0x0A])" using has_img_ext_no_newline by blast
  then show ?thesis unfolding re_match_pattern_for by blast
qed

lemma string_less_lexord:
  "(a::string) < b \<longleftrightarrow> (a, b) \<in> lexord {(c, d). (of_char c :: nat) < of_char d}"
  by (simp add: list_less_def less_char_def)

lemma sorted_filter_str: "sorted xs \<Longrightarrow> sorted (filter P xs)"
  by (rule sorted_filter [where f = id, simplified])

text \<open>
  Claim C4. The valid and the invalid images are disjoint and together make up \<open>all\<close>;
  \<open>all\<close> holds the entries that end in an image extension, whatever the case of its
  letters, sorted in the lexicographic order of code points; valid and invalid are the
  sublists of \<open>all\<close> picked by the pattern match and by its failure, so each keeps the
  order of \<open>all\<close>.
\<close>

theorem classify_partition:
  assumes "validate_images entries sn = (valids, invalids, imgs)"
  shows "set valids \<inter> set invalids = {}
       \<and> set valids \<union> set invalids = set imgs
       \<and> mset valids + mset invalids = mset imgs
       \<and> imgs = sort (filter has_img_ext entries)
       \<and> mset imgs = mset (filter has_img_ext entries)
       \<and> set imgs = {f \<in> set entries. \<exists>stem e. f = stem @ e \<and> py_lower e \<in> set IMG_EXTS}
       \<and> sorted imgs
       \<and> (a < b \<longleftrightarrow> (a, b) \<in> lexord {(c, d). (of_char c :: nat) < of_char d})
       \<and> valids = filter (\<lambda>f. re_match (pattern_for sn) f \<noteq> None) imgs
       \<and> invalids = filter (\<lambda>f. re_match (pattern_for sn) f = None) imgs
       \<and> subseq valids imgs \<and> subseq invalids imgs
       \<and> sorted valids \<and> sorted invalids"
proof -
  let ?P = "\<lambda>f. re_match (pattern_for sn) f \<noteq> None"
  let ?N = "\<lambda>f. re_match (pattern_for sn) f = None"
  from assms have v: "valids = filter ?P imgs" and i: "invalids = filter ?N imgs"
    and a: "imgs = list_images entries"
    unfolding validate_images_eq by auto
  have n: "?N = (\<lambda>f. \<not> ?P f)" by simp
  have srt: "imgs = sort (filter has_img_ext entries)"
    by (simp add: a list_images_def)
  have s: "sorted imgs" by (simp add: srt)
  have m: "mset imgs = mset (filter has_img_ext entries)" by (simp add: srt)
  have e: "set imgs = {f \<in> set entries. \<exists>stem e. f = stem @ e \<and> py_lower e \<in> set IMG_EXTS}"
    unfolding a set_list_images has_img_ext_iff ..
  have d: "set valids \<inter> set invalids = {}" unfolding v i by auto
  have u: "set valids \<union> set invalids = set imgs" unfolding v i by auto
  have p: "mset valids + mset invalids = mset imgs" unfolding v i n by simp
  have q1: "subseq valids imgs" and q2: "subseq invalids imgs" unfolding v i by simp_all
  have s1: "sorted valids" and s2: "sorted invalids"
    unfolding v i using s by (simp_all add: sorted_filter_str)
  note l = string_less_lexord [of a b]
  from d u p srt m e s l v i q1 q2 s1 s2 show ?thesis by (intro conjI)
qed

theorem classify_partition_witness:
  "validate_images [''x.png'', ''image_a_3.png'', ''notes.txt'', ''image_a_1.png''] ''a'' =
     ([''image_a_1.png'', ''image_a_3.png''], [''x.png''],
      [''image_a_1.png'', ''image_a_3.png'', ''x.png''])
   \<and> set [''image_a_1.png'', ''image_a_3.png''] \<inter> set [''x.png''] = {}
   \<and> sorted [''image_a_1.png'', ''image_a_3.png'', ''x.png'']"
proof -
  have e: "validate_images [''x.png'', ''image_a_3.png'', ''notes.txt'', ''image_a_1.png''] ''a'' =
     ([''image_a_1.png'', ''image_a_3.png''], [''x.png''],
      [''image_a_1.png'', ''image_a_3.png'', ''x.png''])"
    by code_simp
  from classify_partition [OF e] e show ?thesis by blast
qed

text \<open>
  Claim C5, as amended. A file of the directory is classified valid exactly when it
  passes the extension filter of the listing and its name is canonical for the short
  name: \<open>image_\<close>, the short name as literal text, \<open>_\<close>, one or more digits, a dot and a
  non-empty alphanumeric extension, with nothing before or after. A file of the listing
  is classified invalid exactly when its name is not canonical.
\<close>

theorem classify_valid_iff_canonical:
  assumes "validate_images entries sn = (valids, invalids, imgs)"
  shows "(f \<in> set valids \<longleftrightarrow> f \<in> set imgs \<and> canonical sn f)
       \<and> (f \<in> set invalids \<longleftrightarrow> f \<in> set imgs \<and> \<not> canonical sn f)
       \<and> (f \<in> set imgs \<longleftrightarrow> f \<in> set entries \<and> has_img_ext f)"
proof -
  from assms have v: "valids = filter (\<lambda>f. re_match (pattern_for sn) f \<noteq> None) imgs"
    and i: "invalids = filter (\<lambda>f. re_match (pattern_for sn) f = None) imgs"
    and a: "imgs = list_images entries"
    unfolding validate_images_eq by auto
  have "re_match (pattern_for sn) f \<noteq> None \<longleftrightarrow> canonical sn f" if "f \<in> set imgs"
    using that unfolding a by (rule valid_iff_canonical)
  then show ?thesis
    unfolding v i by (auto simp: a set_list_images)
qed

text \<open>
  The claim as stated, for every file name, fails on a canonical name without an image
  extension: \<open>image_a_1.txt\<close> never reaches the pattern, because the listing drops it.
\<close>

theorem classify_valid_iff_canonical_counterexample:
  "canonical ''a'' ''image_a_1.txt''
   \<and> ''image_a_1.txt'' \<in> set [''image_a_1.txt'']
   \<and> ''image_a_1.txt'' \<notin> set (fst (validate_images [''image_a_1.txt''] ''a''))"
proof -
  have "''image_a_1.txt'' = ''image_'' @ ''a'' @ ''_'' @ ''1'' @ ''.'' @ ''txt''
        \<and> ''1'' \<noteq> [] \<and> (\<forall>c\<in>set ''1''. is_digit c) \<and> ''txt'' \<noteq> [] \<and> (\<forall>c\<in>set ''txt''. is_alnum c)"
    by (simp add: is_digit_def is_alnum_def)
  then have "canonical ''a'' ''image_a_1.txt''"
    unfolding canonical_def by blast
  moreover have "fst (validate_images [''image_a_1.txt''] ''a'') = []"
    by code_simp
  ultimately show ?thesis by simp
qed

theorem classify_valid_iff_canonical_witness:
  "validate_images [''x.png'', ''image_a.b_3.PNG'', ''image_aXb_1.png'', ''image_a.b_1.txt'']
      ''a.b'' = ([''image_a.b_3.PNG''], [''image_aXb_1.png'', ''x.png''],
                 [''image_a.b_3.PNG'', ''image_aXb_1.png'', ''x.png''])
   \<and> canonical ''a.b'' ''image_a.b_3.PNG''
   \<and> \<not> canonical ''a.b'' ''image_aXb_1.png''
   \<and> \<not> canonical ''a.b'' ''x.png''"
proof -
  have e: "validate_images
      [''x.png'', ''image_a.b_3.PNG'', ''image_aXb_1.png'', ''image_a.b_1.txt''] ''a.b'' =
      ([''image_a.b_3.PNG''], [''image_aXb_1.png'', ''x.png''],
       [''image_a.b_3.PNG'', ''image_aXb_1.png'', ''x.png''])"
    by code_simp
  show ?thesis
    using classify_valid_iff_canonical [OF e, of "''image_a.b_3.PNG''"]
      classify_valid_iff_canonical [OF e, of "''image_aXb_1.png''"]
      classify_valid_iff_canonical [OF e, of "''x.png''"] e
    by simp
qed


section \<open>Properties of the serial allocator and renamer\<close>

lemma ms_serial_pattern:
  "(t, g) \<in> set (ms w serial_pattern s) \<longleftrightarrow>
     (\<exists>ds. s = ''_'' @ ds @ ''.'' @ t \<and> ds \<noteq> [] \<and> (\<forall>c\<in>set ds. is_digit c) \<and> g = [ds])"
proof
  assume "(t, g) \<in> set (ms w serial_pattern s)"
  then show "\<exists>ds. s = ''_'' @ ds @ ''.'' @ t \<and> ds \<noteq> [] \<and> (\<forall>c\<in>set ds. is_digit c) \<and> g = [ds]"
    unfolding serial_pattern_def ms_sem by clarsimp
next
  assume "\<exists>ds. s = ''_'' @ ds @ ''.'' @ t \<and> ds \<noteq> [] \<and> (\<forall>c\<in>set ds. is_digit c) \<and> g = [ds]"
  then obtain ds where s: "s = ''_'' @ ds @ ''.'' @ t"
    and ds: "ds \<noteq> []" "\<forall>c\<in>set ds. in_class Digit c" and g: "g = [ds]"
    by auto
  have "(t, [ds] @ []) \<in> set (ms w (Cat (Group (Plus Digit)) (Lit ''.'')) (ds @ ''.'' @ t))"
    using ms_GroupI [OF ms_PlusI [OF ds]] ms_LitI by (rule ms_CatI)
  with ms_LitI have "(t, [] @ [ds] @ []) \<in> set (ms w serial_pattern (''_'' @ ds @ ''.'' @ t))"
    unfolding serial_pattern_def by (rule ms_CatI)
  then show "(t, g) \<in> set (ms w serial_pattern s)"
    using g s by simp
qed

lemma digit_group_unique:
  assumes "digit_group_at s ds" and "digit_group_at s ds'"
  shows "ds = ds'"
proof -
  have nd: "\<not> is_digit CHR ''.''" by (simp add: is_digit_def)
  have tw: "takeWhile is_digit (xs @ CHR ''.'' # p) = xs" if "\<forall>c\<in>set xs. is_digit c" for xs p
    using that nd by (simp add: takeWhile_append2)
  from assms obtain p p' where "s = ''_'' @ ds @ ''.'' @ p" "s = ''_'' @ ds' @ ''.'' @ p'"
    and d: "\<forall>c\<in>set ds. is_digit c" "\<forall>c\<in>set ds'. is_digit c"
    unfolding digit_group_at_def by blast
  then have "ds @ CHR ''.'' # p = ds' @ CHR ''.'' # p'" by simp
  then have "takeWhile is_digit (ds @ CHR ''.'' # p) = takeWhile is_digit (ds' @ CHR ''.'' # p')"
    by simp
  then show ?thesis by (simp only: tw [OF d(1)] tw [OF d(2)])
qed

lemma ms_serial_mem:
  "(t, g) \<in> set (ms w serial_pattern s) \<Longrightarrow> \<exists>ds. g = [ds] \<and> digit_group_at s ds"
  unfolding ms_serial_pattern digit_group_at_def by blast

lemma ms_serial_Nil: "ms w serial_pattern s = [] \<longleftrightarrow> (\<forall>ds. \<not> digit_group_at s ds)"
proof
  assume e: "ms w serial_pattern s = []"
  show "\<forall>ds. \<not> digit_group_at s ds"
  proof (intro allI notI)
    fix ds assume "digit_group_at s ds"
    then obtain t where "(t, [ds]) \<in> set (ms w serial_pattern s)"
      unfolding ms_serial_pattern digit_group_at_def by blast
    with e show False by simp
  qed
next
  assume n: "\<forall>ds. \<not> digit_group_at s ds"
  show "ms w serial_pattern s = []"
  proof (cases "ms w serial_pattern s")
    case Nil
    then show ?thesis .
  next
    case (Cons a as)
    obtain t g where "a = (t, g)" by (cases a)
    with Cons have "(t, g) \<in> set (ms w serial_pattern s)" by simp
    from ms_serial_mem [OF this] n show ?thesis by blast
  qed
qed

lemma search_from_serial:
  "search_from w serial_pattern s = Some g \<longleftrightarrow> (\<exists>ds. g = [ds] \<and> first_digit_group s ds)"
proof (induction s)
  case Nil
  have "\<not> digit_group_at [] ds" for ds by (simp add: digit_group_at_def)
  then show ?case
    by (simp add: ms_serial_Nil [THEN iffD2] first_digit_group_def del: ms.simps)
next
  case (Cons c s)
  show ?case
  proof (cases "ms w serial_pattern (c # s)")
    case Nil
    then have no: "\<forall>ds. \<not> digit_group_at (c # s) ds" by (rule ms_serial_Nil [THEN iffD1])
    have "first_digit_group (c # s) ds \<longleftrightarrow> first_digit_group s ds" for ds
    proof
      assume "first_digit_group (c # s) ds"
      then obtain i where i: "i \<le> length (c # s)" "digit_group_at (drop i (c # s)) ds"
        "\<forall>j<i. \<forall>ds'. \<not> digit_group_at (drop j (c # s)) ds'"
        unfolding first_digit_group_def by blast
      from i(2) no have "i \<noteq> 0" by (cases i) auto
      then obtain k where k: "i = Suc k" by (cases i) auto
      have "\<forall>j<k. \<forall>ds'. \<not> digit_group_at (drop j s) ds'"
      proof (intro allI impI)
        fix j ds' assume "j < k"
        then have "Suc j < i" using k by simp
        with i(3) have "\<not> digit_group_at (drop (Suc j) (c # s)) ds'" by blast
        then show "\<not> digit_group_at (drop j s) ds'" by simp
      qed
      with i(1,2) k show "first_digit_group s ds"
        unfolding first_digit_group_def by auto
    next
      assume "first_digit_group s ds"
      then obtain i where i: "i \<le> length s" "digit_group_at (drop i s) ds"
        "\<forall>j<i. \<forall>ds'. \<not> digit_group_at (drop j s) ds'"
        unfolding first_digit_group_def by blast
      have "\<forall>j<Suc i. \<forall>ds'. \<not> digit_group_at (drop j (c # s)) ds'"
      proof (intro allI impI)
        fix j ds' assume j: "j < Suc i"
        show "\<not> digit_group_at (drop j (c # s)) ds'"
        proof (cases j)
          case 0
          with no show ?thesis by simp
        next
          case (Suc m)
          with j i(3) show ?thesis by simp
        qed
      qed
      with i(1,2) show "first_digit_group (c # s) ds"
        unfolding first_digit_group_def by (intro exI [of _ "Suc i"]) simp
    qed
    with Cons.IH Nil show ?thesis by (simp del: ms.simps)
  next
    case (Cons a as)
    obtain t g' where a: "a = (t, g')" by (cases a)
    with Cons have "(t, g') \<in> set (ms w serial_pattern (c # s))" by simp
    from ms_serial_mem [OF this] obtain ds where ds: "g' = [ds]" "digit_group_at (c # s) ds"
      by blast
    have f: "first_digit_group (c # s) ds' \<longleftrightarrow> ds' = ds" for ds'
    proof
      assume "first_digit_group (c # s) ds'"
      then obtain i where i: "digit_group_at (drop i (c # s)) ds'"
        "\<forall>j<i. \<forall>ds'. \<not> digit_group_at (drop j (c # s)) ds'"
        unfolding first_digit_group_def by blast
      have "i = 0"
      proof (rule ccontr)
        assume "i \<noteq> 0"
        then have "0 < i" by simp
        with i(2) have "\<not> digit_group_at (drop 0 (c # s)) ds" by blast
        with ds(2) show False by simp
      qed
      with i(1) have "digit_group_at (c # s) ds'" by simp
      then show "ds' = ds" using ds(2) by (rule digit_group_unique)
    next
      assume "ds' = ds"
      with ds(2) show "first_digit_group (c # s) ds'"
        unfolding first_digit_group_def by (intro exI [of _ 0]) simp
    qed
    show ?thesis
      using Cons a ds(1) by (auto simp: f simp del: ms.simps)
  qed
qed

lemma search_serial_iff: "search_serial name = Some ds \<longleftrightarrow> first_digit_group name ds"
proof -
  have r: "re_search serial_pattern name = Some g \<longleftrightarrow>
           (\<exists>ds. g = [ds] \<and> first_digit_group name ds)" for g
    unfolding re_search_def by (rule search_from_serial)
  show ?thesis
  proof (cases "re_search serial_pattern name")
    case None
    then have "\<not> first_digit_group name ds" using r [of "[ds]"] by simp
    with None show ?thesis by (simp add: search_serial_def)
  next
    case (Some g)
    with r [of g] obtain ds0 where g: "g = [ds0]" and "first_digit_group name ds0" by blast
    moreover have "ds = ds0" if "first_digit_group name ds"
      using that r [of "[ds]"] Some g by simp
    ultimately show ?thesis
      using Some by (auto simp: search_serial_def)
  qed
qed

lemma set_highest_serial_loop_acc:
  "set (highest_serial_loop names nums) =
     set nums \<union> {py_int ds | f ds. f \<in> set names \<and> search_serial f = Some ds}"
proof (induction names arbitrary: nums)
  case Nil
  show ?case by simp
next
  case (Cons name rest)
  show ?case
    by (cases "search_serial name") (auto simp: Cons.IH)
qed

lemma set_highest_serial_loop: "set (highest_serial_loop valid []) = serials valid"
  by (simp add: set_highest_serial_loop_acc serials_def search_serial_iff)

lemma highest_serial_first: "highest_serial valid + 1 = first_serial valid"
proof -
  let ?nums = "highest_serial_loop valid []"
  have "?nums = [] \<longleftrightarrow> serials valid = {}"
    using set_highest_serial_loop [of valid] by (metis set_empty)
  moreover have "py_max ?nums = Max (serials valid)" if "?nums \<noteq> []"
    using py_max_Max [OF that] by (simp only: set_highest_serial_loop)
  ultimately show ?thesis
    by (auto simp: highest_serial_def first_serial_def Let_def)
qed

lemma rename_plan_Cons:
  "rename_plan sn n (fname # rest) =
     (fname, new_name_for sn n fname) # rename_plan sn (Suc n) rest"
  by (simp add: rename_plan_def)

lemma rename_loop_run:
  "rename_loop os_rename fs sn invalid n acc =
     (case run_renames os_rename fs (rename_plan sn n invalid) of
        (fs', Inl e) \<Rightarrow> (fs', Inl e)
      | (fs', Inr u) \<Rightarrow> (fs', Inr (acc @ rename_plan sn n invalid)))"
proof (induction invalid arbitrary: fs n acc)
  case Nil
  show ?case by (simp add: rename_plan_def)
next
  case (Cons fname rest)
  let ?new = "new_name_for sn n fname"
  have step: "rename_loop os_rename fs sn (fname # rest) n acc =
      (case os_rename fs fname ?new of
         Inl e \<Rightarrow> (fs, Inl e)
       | Inr fs' \<Rightarrow> rename_loop os_rename fs' sn rest (Suc n) (acc @ [(fname, ?new)]))"
    by (simp add: Let_def new_name_for_def split: sum.splits)
  show ?case
  proof (cases "os_rename fs fname ?new")
    case (Inl e)
    then show ?thesis
      unfolding step rename_plan_Cons by simp
  next
    case (Inr fs1)
    then show ?thesis
      unfolding step rename_plan_Cons
      by (simp add: Cons.IH split: prod.splits sum.splits)
  qed
qed

lemma length_rename_plan: "length (rename_plan sn first invalid) = length invalid"
  by (simp add: rename_plan_def)

lemma nth_rename_plan:
  assumes "k < length invalid"
  shows "rename_plan sn first invalid ! k =
           (invalid ! k,
            ''image_'' @ sn @ ''_'' @ py_str (first + k) @ snd (splitext (invalid ! k)))"
  using assms by (simp add: rename_plan_def nth_enumerate_eq new_name_for_def)

text \<open>
  What \<open>rename_invalids_to_valid\<close> does, whatever the system's \<open>os.rename\<close>: it asks for the
  renames of its mapping in order, starting at the serial after the largest serial of the
  valid images; when one raises it stops there, otherwise it returns the mapping.
\<close>

lemma rename_invalids_to_valid_mapping:
  "rename_invalids_to_valid os_rename fs sn valid invalid =
     (case run_renames os_rename fs (rename_plan sn (first_serial valid) invalid) of
        (fs', Inl e) \<Rightarrow> (fs', Inl e)
      | (fs', Inr u) \<Rightarrow> (fs', Inr (rename_plan sn (first_serial valid) invalid)))"
  unfolding rename_invalids_to_valid_def Let_def highest_serial_first rename_loop_run
  by simp

lemma rename_plan_example:
  "rename_plan ''a'' (highest_serial [''image_a_3.png'', ''image_a_1.png''] + 1)
     [''photo.jpg'', ''x.png''] =
   [(''photo.jpg'', ''image_a_4.jpg''), (''x.png'', ''image_a_5.png'')]"
  by code_simp

lemma rename_plan_Nil: "rename_plan sn n [] = []"
  by (simp add: rename_plan_def)

lemma rfind_last:
  assumes "c \<notin> set e"
  shows "rfind c (stem @ c # e) = int (length stem)"
proof -
  have "takeWhile (\<lambda>x. x \<noteq> c) (rev e @ c # rev stem) = rev e"
    using assms by (subst takeWhile_append2) auto
  then show ?thesis by (simp add: rfind_def)
qed

lemma rfind_absent: "c \<notin> set s \<Longrightarrow> rfind c s = - 1"
  by (simp add: rfind_def)

lemma splitext_ordinary:
  assumes "CHR ''.'' \<notin> set e" and "CHR ''/'' \<notin> set (stem @ e)"
    and "\<exists>c\<in>set stem. c \<noteq> CHR ''.''"
  shows "splitext (stem @ ''.'' @ e) = (stem, ''.'' @ e)"
proof -
  have d: "rfind CHR ''.'' (stem @ ''.'' @ e) = int (length stem)"
    using assms(1) by (simp add: rfind_last)
  have s: "rfind CHR ''/'' (stem @ ''.'' @ e) = - 1"
    using assms(2) by (intro rfind_absent) simp
  have "list_ex (\<lambda>x. x \<noteq> CHR ''.'') stem"
    using assms(3) by (simp add: list_ex_iff)
  then show ?thesis
    unfolding splitext_def d s by (simp add: Let_def)
qed

lemma renamed_is_canonical:
  assumes "snd (splitext fname) = ''.'' @ e" and "e \<noteq> []" and "\<forall>c\<in>set e. is_alnum c"
  shows "canonical sn (new_name_for sn n fname)"
proof -
  have "new_name_for sn n fname = ''image_'' @ sn @ ''_'' @ py_str n @ ''.'' @ e"
    by (simp add: new_name_for_def assms(1))
  moreover have "py_str n \<noteq> []" and "\<forall>c\<in>set (py_str n). is_digit c"
    using py_str_digits [of n] by simp_all
  ultimately show ?thesis
    unfolding canonical_def using assms(2,3) by blast
qed

text \<open>
  Claim C1. The claim asks that every invalid file keeps its extension in its new name.
  The code takes the extension from \<open>os.path.splitext\<close>, which gives none for a name
  made of a dot and letters only. The file \<open>.png\<close> is listed as an image by its ending and
  classified invalid; with the largest valid serial 9 the code asks the system to rename
  it to \<open>image_a_10\<close>, without \<open>.png\<close>, and reports that mapping when the rename
  succeeds. The new name has no image extension and does not match the pattern, so the
  next listing no longer holds the file.
\<close>

theorem dot_name_loses_extension:
  "has_img_ext ''.png''
   \<and> validate_images [''image_a_9.png'', ''.png''] ''a'' =
       ([''image_a_9.png''], [''.png''], [''.png'', ''image_a_9.png''])
   \<and> splitext ''.png'' = (''.png'', [])
   \<and> rename_invalids_to_valid os_rename fs ''a'' [''image_a_9.png''] [''.png''] =
       (case os_rename fs ''.png'' ''image_a_10'' of
          Inl e \<Rightarrow> (fs, Inl e)
        | Inr fs' \<Rightarrow> (fs', Inr [(''.png'', ''image_a_10'')]))
   \<and> \<not> has_img_ext ''image_a_10''
   \<and> re_match (pattern_for ''a'') ''image_a_10'' = None
   \<and> validate_images [''image_a_9.png'', ''image_a_10''] ''a'' =
       ([''image_a_9.png''], [], [''image_a_9.png''])"
proof -
  have listed: "has_img_ext ''.png''"
    by code_simp
  have before: "validate_images [''image_a_9.png'', ''.png''] ''a'' =
       ([''image_a_9.png''], [''.png''], [''.png'', ''image_a_9.png''])"
    by code_simp
  have ext: "splitext ''.png'' = (''.png'', [])"
    by code_simp
  have hs: "highest_serial [''image_a_9.png''] = 9"
    by code_simp
  have ten: "py_str 10 = ''10''"
    by code_simp
  have call: "rename_invalids_to_valid os_rename fs ''a'' [''image_a_9.png''] [''.png''] =
       (case os_rename fs ''.png'' ''image_a_10'' of
          Inl e \<Rightarrow> (fs, Inl e)
        | Inr fs' \<Rightarrow> (fs', Inr [(''.png'', ''image_a_10'')]))"
    by (simp add: rename_invalids_to_valid_def hs ten ext Let_def split: sum.splits)
  have unlisted: "\<not> has_img_ext ''image_a_10''"
    by code_simp
  have nomatch: "re_match (pattern_for ''a'') ''image_a_10'' = None"
    by code_simp
  have after: "validate_images [''image_a_9.png'', ''image_a_10''] ''a'' =
       ([''image_a_9.png''], [], [''image_a_9.png''])"
    by code_simp
  from listed before ext call unlisted nomatch after show ?thesis
    by (intro conjI)
qed

section \<open>Properties of the filter engine\<close>

lemma apply_filters_loop_filter:
  "apply_filters_loop imgs caps lms cap_min cap_max lf acc =
     acc @ filter (keeps caps lms cap_min cap_max lf) imgs"
  by (induction imgs arbitrary: acc) (auto simp: keeps_def Let_def)

text \<open>
  Claim C6. \<open>apply_filters\<close> keeps an image exactly when its caption count lies in
  \<open>[cap_min, cap_max]\<close> and the landmark criterion holds, in the order of \<open>valid_images\<close>;
  with \<open>cap_min = cap_max = 0\<close> and the filter \<open>Any\<close> the result is the images with no
  caption, in their original order.
\<close>

theorem apply_filters_is_stable_filter:
  "apply_filters valid_images caps lms cap_min cap_max lf =
     filter (keeps caps lms cap_min cap_max lf) valid_images
   \<and> apply_filters valid_images caps lms 0 0 ''Any'' =
     filter (\<lambda>img. length (caps_get caps img) = 0) valid_images"
proof -
  have "keeps caps lms 0 0 ''Any'' = (\<lambda>img. length (caps_get caps img) = 0)"
    by (auto simp: keeps_def fun_eq_iff)
  then show ?thesis
    by (simp add: apply_filters_def apply_filters_loop_filter)
qed

theorem apply_filters_is_stable_filter_witness:
  "apply_filters [''image_a_1.png'', ''image_a_2.png'', ''image_a_3.png'']
     [''image_a_1.png'' \<mapsto> [''a lake'', ''a boat''], ''image_a_3.png'' \<mapsto> [''a hill'']]
     [''image_a_1.png'' \<mapsto> ''lake'', ''image_a_3.png'' \<mapsto> ''hill''] 1 2 ''hill'' =
       [''image_a_3.png'']
   \<and> apply_filters [''image_a_2.png'', ''image_a_1.png'', ''image_a_4.png'']
     [''image_a_1.png'' \<mapsto> [''a lake'', ''a boat'']]
     [''image_a_1.png'' \<mapsto> ''lake''] 0 0 ''Any'' = [''image_a_2.png'', ''image_a_4.png'']"
proof -
  have "apply_filters [''image_a_1.png'', ''image_a_2.png'', ''image_a_3.png'']
     [''image_a_1.png'' \<mapsto> [''a lake'', ''a boat''], ''image_a_3.png'' \<mapsto> [''a hill'']]
     [''image_a_1.png'' \<mapsto> ''lake'', ''image_a_3.png'' \<mapsto> ''hill''] 1 2 ''hill'' =
       [''image_a_3.png'']"
    by (simp add: apply_filters_is_stable_filter [THEN conjunct1] keeps_def caps_get_def
        lm_get_def)
  moreover have "apply_filters [''image_a_2.png'', ''image_a_1.png'', ''image_a_4.png'']
     [''image_a_1.png'' \<mapsto> [''a lake'', ''a boat'']]
     [''image_a_1.png'' \<mapsto> ''lake''] 0 0 ''Any'' = [''image_a_2.png'', ''image_a_4.png'']"
    by (simp add: apply_filters_is_stable_filter [THEN conjunct2] caps_get_def)
  ultimately show ?thesis by (intro conjI)
qed

lemma landmark_set_loop_eq:
  "landmark_set_loop imgs lms acc = acc \<union> (lm_get lms ` set imgs - {[]})"
  by (induction imgs arbitrary: acc) (auto simp: Let_def)

lemma fst_build_filters:
  "fst (build_filters v caps lms) = [0 .. max_caption_count v caps]"
  by (simp add: build_filters_def Let_def max_caption_count_def py_max_Max)

lemma snd_build_filters:
  "snd (build_filters v caps lms) = ''Any'' # sorted_list_of_set (landmark_values v lms)"
  by (simp add: build_filters_def Let_def landmark_values_def landmark_set_loop_eq)

lemma max_caption_count_nonneg: "0 \<le> max_caption_count v caps"
proof (cases v)
  case Nil
  then show ?thesis by (simp add: max_caption_count_def)
next
  case (Cons a as)
  have "int (length (caps_get caps a)) \<le> max_caption_count v caps"
    unfolding max_caption_count_def using Cons by (auto intro!: Max_ge)
  then show ?thesis by linarith
qed

text \<open>
  Claim C7. The count options are the dense range from 0 to the largest caption count
  among the valid images, so they hold 0, that maximum and every integer between; the
  landmark options are \<open>Any\<close> followed by the sorted distinct non-empty landmark values
  of the valid images; for no valid image the options are \<open>[0]\<close> and \<open>[Any]\<close>.
\<close>

theorem build_filters_options:
  "fst (build_filters v caps lms) = [0 .. max_caption_count v caps]
   \<and> set (fst (build_filters v caps lms)) = {0 .. max_caption_count v caps}
   \<and> 0 \<in> set (fst (build_filters v caps lms))
   \<and> max_caption_count v caps \<in> set (fst (build_filters v caps lms))
   \<and> snd (build_filters v caps lms) = ''Any'' # sorted_list_of_set (landmark_values v lms)
   \<and> sorted (tl (snd (build_filters v caps lms)))
   \<and> distinct (tl (snd (build_filters v caps lms)))
   \<and> set (tl (snd (build_filters v caps lms))) = landmark_values v lms
   \<and> build_filters [] caps lms = ([0], [''Any''])"
proof -
  have fin: "finite (landmark_values v lms)" by (simp add: landmark_values_def)
  have e: "build_filters [] caps lms = ([0], [''Any''])"
    by (simp add: build_filters_def Let_def)
  show ?thesis
    using max_caption_count_nonneg [of v caps] fin e
    by (simp add: fst_build_filters snd_build_filters)
qed

theorem build_filters_options_witness:
  "build_filters [''image_a_1.png'', ''image_a_2.png'', ''image_a_3.png'']
     [''image_a_1.png'' \<mapsto> [''a lake'', ''a boat''], ''image_a_3.png'' \<mapsto> [''a hill'']]
     [''image_a_1.png'' \<mapsto> ''lake'', ''image_a_2.png'' \<mapsto> [], ''image_a_3.png'' \<mapsto> ''hill'']
   = ([0, 1, 2], [''Any'', ''hill'', ''lake''])"
proof -
  let ?v = "[''image_a_1.png'', ''image_a_2.png'', ''image_a_3.png'']"
  let ?caps = "[''image_a_1.png'' \<mapsto> [''a lake'', ''a boat''], ''image_a_3.png'' \<mapsto> [''a hill'']]"
  let ?lms = "[''image_a_1.png'' \<mapsto> ''lake'', ''image_a_2.png'' \<mapsto> [], ''image_a_3.png'' \<mapsto> ''hill'']"
  note inst = build_filters_options [where v = ?v and caps = ?caps and lms = ?lms]
  have m: "max_caption_count ?v ?caps = 2"
    by (simp add: max_caption_count_def caps_get_def)
  have l: "landmark_values ?v ?lms = {''lake'', ''hill''}"
    by (auto simp: landmark_values_def lm_get_def)
  have o: "sorted_list_of_set {''lake'', ''hill''} = [''hill'', ''lake'']"
    by code_simp
  have u: "[0..2] = [0, 1, 2::int]"
    by code_simp
  have "fst (build_filters ?v ?caps ?lms) = [0, 1, 2]"
    using inst [THEN conjunct1] by (simp only: m u)
  moreover have "snd (build_filters ?v ?caps ?lms) = [''Any'', ''hill'', ''lake'']"
    using inst [THEN conjunct2, THEN conjunct2, THEN conjunct2, THEN conjunct2, THEN conjunct1]
    by (simp only: l o)
  ultimately show ?thesis by (simp add: prod_eq_iff)
qed
section \<open>Properties of the annotation store\<close>


lemma ensure_csv_eq:
  "ensure_csv store path cols =
     ((if store path = None then store(path \<mapsto> \<lparr>columns = cols, rows = []\<rparr>) else store),
      Inr (stored store path cols))"
  by (auto simp: ensure_csv_def read_csv_def stored_def Let_def split: option.splits)


text \<open>
  Claim C8. Loading a path whose file is missing first creates the file with the given
  header and no rows and returns that empty relation; loading an existing file leaves
  the store as it is and returns the relation the file holds; a load never ends in an
  error because the file is missing.
\<close>

theorem ensure_csv_load:
  "(store path = None \<longrightarrow>
      ensure_csv store path cols =
        (store(path \<mapsto> \<lparr>columns = cols, rows = []\<rparr>), Inr \<lparr>columns = cols, rows = []\<rparr>))
   \<and> (\<forall>df. store path = Some df \<longrightarrow> ensure_csv store path cols = (store, Inr df))
   \<and> (\<exists>store' df. ensure_csv store path cols = (store', Inr df))"
proof (intro conjI allI impI)
  assume "store path = None"
  then show "ensure_csv store path cols =
      (store(path \<mapsto> \<lparr>columns = cols, rows = []\<rparr>), Inr \<lparr>columns = cols, rows = []\<rparr>)"
    by (simp add: ensure_csv_eq stored_def)
next
  fix df
  assume "store path = Some df"
  then show "ensure_csv store path cols = (store, Inr df)"
    by (simp add: ensure_csv_eq stored_def)
next
  show "\<exists>store' df. ensure_csv store path cols = (store', Inr df)"
    unfolding ensure_csv_eq by (intro exI) (rule refl)
qed

theorem ensure_csv_load_witness:
  "ensure_csv Map.empty CAPTIONS_FILE [''image_name'', ''caption''] =
     ([CAPTIONS_FILE \<mapsto> \<lparr>columns = [''image_name'', ''caption''], rows = []\<rparr>],
      Inr \<lparr>columns = [''image_name'', ''caption''], rows = []\<rparr>)
   \<and> ensure_csv
        [CAPTIONS_FILE \<mapsto> \<lparr>columns = [''image_name'', ''caption''],
                             rows = [(Str ''img1.png'', Str ''hello'')]\<rparr>]
        CAPTIONS_FILE [''image_name'', ''caption''] =
     ([CAPTIONS_FILE \<mapsto> \<lparr>columns = [''image_name'', ''caption''],
                             rows = [(Str ''img1.png'', Str ''hello'')]\<rparr>],
      Inr \<lparr>columns = [''image_name'', ''caption''], rows = [(Str ''img1.png'', Str ''hello'')]\<rparr>)"
  using ensure_csv_load [of Map.empty CAPTIONS_FILE "[''image_name'', ''caption'']"]
    ensure_csv_load [of "[CAPTIONS_FILE \<mapsto> \<lparr>columns = [''image_name'', ''caption''],
                             rows = [(Str ''img1.png'', Str ''hello'')]\<rparr>]" CAPTIONS_FILE
       "[''image_name'', ''caption'']"]
  by simp

subsection \<open>Stripping\<close>




subsection \<open>Row operations on captions\<close>





subsection \<open>Row operations on landmarks\<close>










subsection \<open>The button handlers\<close>












subsection \<open>Captions: append and delete\<close>




subsection \<open>Landmarks: upsert\<close>







subsection \<open>The captions view\<close>

lemma captions_map_loop_step:
  "captions_map_loop ((i, c) # rs) m =
     captions_map_loop rs
       (m(cell_str i \<mapsto> caps_get m (cell_str i) @ [case c of NaN \<Rightarrow> [] | Str s \<Rightarrow> s]))"
  by (cases c) (simp_all add: caps_get_def Let_def)

lemma caps_get_upd: "caps_get (m(k \<mapsto> v)) img = (if img = k then v else caps_get m img)"
  by (simp add: caps_get_def)

lemma captions_map_loop_get:
  "caps_get (captions_map_loop rs m) img =
     caps_get m img @
     map (\<lambda>r. case snd r of NaN \<Rightarrow> [] | Str s \<Rightarrow> s)
       (filter (\<lambda>r. cell_str (fst r) = img) rs)"
proof (induction rs arbitrary: m)
  case Nil
  show ?case by simp
next
  case (Cons r rs)
  obtain i c where r: "r = (i, c)" by (cases r)
  show ?case
    unfolding r captions_map_loop_step Cons.IH caps_get_upd by simp
qed

lemma caps_get_captions_map:
  "caps_get (captions_map df) img =
     map (\<lambda>r. case snd r of NaN \<Rightarrow> [] | Str s \<Rightarrow> s)
       (filter (\<lambda>r. cell_str (fst r) = img) (rows df))"
  by (simp add: captions_map_def captions_map_loop_get) (simp add: caps_get_def)

text \<open>
  Claim C10. The captions view keeps one entry for every row of the image and turns a
  missing caption cell into the empty string, so the caption count of an image is the
  number of its rows; an image with a blank caption row is not among the images that
  the filter \<open>cap_min = 0\<close>, \<open>cap_max = 0\<close>, \<open>Any\<close> returns.
\<close>

theorem blank_caption_counts:
  "caps_get (captions_map df) img =
     map (\<lambda>r. case snd r of NaN \<Rightarrow> [] | Str s \<Rightarrow> s)
       (filter (\<lambda>r. cell_str (fst r) = img) (rows df))
   \<and> length (caps_get (captions_map df) img) =
     length (filter (\<lambda>r. cell_str (fst r) = img) (rows df))
   \<and> ((Str img, NaN) \<in> set (rows df) \<longrightarrow>
        [] \<in> set (caps_get (captions_map df) img) \<and>
        img \<notin> set (apply_filters valid_images (captions_map df) lms 0 0 ''Any''))
   \<and> caps_get (captions_map \<lparr>columns = cols, rows = [(Str img, NaN)]\<rparr>) img = [[]]
   \<and> apply_filters [img] (captions_map \<lparr>columns = cols, rows = [(Str img, NaN)]\<rparr>) lms
        0 0 ''Any'' = []"
proof -
  have a: "[] \<in> set (caps_get (captions_map df) img)"
    if "(Str img, NaN) \<in> set (rows df)"
  proof -
    from that have "(Str img, NaN) \<in> set (filter (\<lambda>r. cell_str (fst r) = img) (rows df))"
      by simp
    then have "[] \<in> (\<lambda>r. case snd r of NaN \<Rightarrow> [] | Str s \<Rightarrow> s) `
        set (filter (\<lambda>r. cell_str (fst r) = img) (rows df))"
      by force
    then show ?thesis by (simp only: caps_get_captions_map set_map)
  qed
  have b: "img \<notin> set (apply_filters valid_images (captions_map df) lms 0 0 ''Any'')"
    if "(Str img, NaN) \<in> set (rows df)"
  proof -
    from a [OF that] have "caps_get (captions_map df) img \<noteq> []" by auto
    then show ?thesis
      by (simp add: apply_filters_def apply_filters_loop_filter keeps_def)
  qed
  have c: "caps_get (captions_map \<lparr>columns = cols, rows = [(Str img, NaN)]\<rparr>) img = [[]]"
    by (simp add: caps_get_captions_map)
  have d: "apply_filters [img] (captions_map \<lparr>columns = cols, rows = [(Str img, NaN)]\<rparr>) lms
        0 0 ''Any'' = []"
    by (simp add: apply_filters_def apply_filters_loop_filter keeps_def c)
  show ?thesis
    using a b c d by (simp add: caps_get_captions_map)
qed

theorem blank_caption_counts_witness:
  "(Str ''image_a_1.png'', NaN) \<in>
      set (rows \<lparr>columns = [''image_name'', ''caption''],
                 rows = [(Str ''image_a_1.png'', NaN)]\<rparr>)
   \<and> ''image_a_1.png'' \<notin>
      set (apply_filters [''image_a_1.png'', ''image_a_2.png'']
             (captions_map \<lparr>columns = [''image_name'', ''caption''],
                            rows = [(Str ''image_a_1.png'', NaN)]\<rparr>) Map.empty 0 0 ''Any'')
   \<and> apply_filters [''image_a_1.png'', ''image_a_2.png'']
             (captions_map \<lparr>columns = [''image_name'', ''caption''],
                            rows = [(Str ''image_a_1.png'', NaN)]\<rparr>) Map.empty 0 0 ''Any''
      = [''image_a_2.png'']"
proof -
  let ?df = "\<lparr>columns = [''image_name'', ''caption''], rows = [(Str ''image_a_1.png'', NaN)]\<rparr>"
  have r: "(Str ''image_a_1.png'', NaN) \<in> set (rows ?df)" by simp
  have "(Str ''image_a_1.png'', NaN) \<in> set (rows ?df) \<longrightarrow>
        [] \<in> set (caps_get (captions_map ?df) ''image_a_1.png'') \<and>
        ''image_a_1.png'' \<notin>
          set (apply_filters [''image_a_1.png'', ''image_a_2.png''] (captions_map ?df)
                 Map.empty 0 0 ''Any'')"
    using blank_caption_counts [where df = ?df and img = "''image_a_1.png''"
        and valid_images = "[''image_a_1.png'', ''image_a_2.png'']" and lms = Map.empty]
    by blast
  with r have n: "''image_a_1.png'' \<notin>
          set (apply_filters [''image_a_1.png'', ''image_a_2.png''] (captions_map ?df)
                 Map.empty 0 0 ''Any'')"
    by blast
  have e: "apply_filters [''image_a_1.png'', ''image_a_2.png''] (captions_map ?df)
                 Map.empty 0 0 ''Any'' = [''image_a_2.png'']"
    by (simp add: apply_filters_def captions_map_def caps_get_def lm_get_def)
  from r n e show ?thesis by blast
qed


end
